theory Spec2Isabelle
  imports Main "HOL-Library.Sublist"
begin

section \<open>Data model of \<^verbatim>\<open>sreality_scraper.py\<close>\<close>

text \<open>
  A listing is the dict that \<^verbatim>\<open>fetch_properties\<close> builds for every estate (lines 136-146).
  Its nine keys are fixed there, so the dict is a record. The key \<^verbatim>\<open>'id'\<close> holds the value of
  the local \<^verbatim>\<open>prop_id\<close> and is named after it, since \<open>id\<close> is the identity function of HOL.
  \<^verbatim>\<open>'price'\<close> is a Python integer; \<^verbatim>\<open>'area'\<close> is the number of the API or the text
  \<^verbatim>\<open>'N/A'\<close>; \<^verbatim>\<open>'image_url'\<close> is \<^verbatim>\<open>None\<close> or the address of the first image.
\<close>

datatype pyval = PNone | PInt int | PStr string

record listing =
  prop_id :: string
  name :: string
  price :: int
  locality :: string
  url :: string
  area :: pyval
  image_url :: "string option"
  description :: string
  last_updated :: string

text \<open>
  An entry of \<^verbatim>\<open>price_changes\<close> is \<^verbatim>\<open>{**prop, 'old_price': ..., 'price_diff': ...}\<close>
  (lines 789-793): the listing extended by two keys.
\<close>

record price_change = listing +
  old_price :: int
  price_diff :: int

text \<open>
  \<^verbatim>\<open>current_data\<close> and \<^verbatim>\<open>previous_data\<close> are dicts from id to listing that the code
  iterates with \<^verbatim>\<open>.items()\<close>: association lists in insertion order, whose keys are distinct
  (\<open>dict_keys_ok\<close>). \<^verbatim>\<open>history\<close> is a dict from id to the list of snapshots of that id; the
  detection pass only looks keys up and stores under keys, so it is a map.
\<close>

type_synonym snapshot = "(string \<times> listing) list"
type_synonym history = "string \<rightharpoonup> listing list"

definition keys :: "snapshot \<Rightarrow> string set" where
  "keys d = fst ` set d"

definition dict_keys_ok :: "snapshot \<Rightarrow> bool" where
  "dict_keys_ok d \<longleftrightarrow> distinct (map fst d)"

text \<open>
  \<^verbatim>\<open>fetch_properties\<close> stores every listing under its own id (line 136 and 137):
  \<^verbatim>\<open>all_properties[prop_id] = {'id': prop_id, ...}\<close>.
\<close>

definition keyed_by_id :: "snapshot \<Rightarrow> bool" where
  "keyed_by_id d \<longleftrightarrow> list_all (\<lambda>(k, prop). prop_id prop = k) d"

section \<open>The detection pass of \<^verbatim>\<open>check_and_notify\<close> (lines 771-798)\<close>

text \<open>
  Lines 778-782:
  \<^verbatim>\<open>if prop_id not in history: history[prop_id] = []\<close> followed by
  \<^verbatim>\<open>history[prop_id].append(prop.copy())\<close>: the list stored under the id, taken as empty
  when the id has none yet, grows by one element at its end. On values the copy of a listing
  is the listing; the store model below keeps the two objects apart.
\<close>

definition snapshots_of :: "(string \<rightharpoonup> 'a list) \<Rightarrow> string \<Rightarrow> 'a list" where
  "snapshots_of h k = (case h k of None \<Rightarrow> [] | Some snaps \<Rightarrow> snaps)"

definition append_snapshot :: "(string \<rightharpoonup> 'a list) \<Rightarrow> string \<Rightarrow> 'a \<Rightarrow> (string \<rightharpoonup> 'a list)" where
  "append_snapshot h k prop = h(k \<mapsto> snapshots_of h k @ [prop])"

text \<open>The three locals the first loop updates.\<close>

record scan =
  history_of :: history
  new_properties :: "listing list"
  price_changes :: "price_change list"

definition price_change_entry :: "listing \<Rightarrow> int \<Rightarrow> price_change" where
  "price_change_entry prop old =
     listing.extend prop (price_change.fields old (price prop - old))"

text \<open>The loop of lines 776-793 over \<^verbatim>\<open>current_data.items()\<close>.\<close>

fun scan_current :: "snapshot \<Rightarrow> (string \<times> listing) list \<Rightarrow> scan \<Rightarrow> scan" where
  "scan_current previous_data [] s = s"
| "scan_current previous_data ((k, prop) # items) s =
     (let s1 = s\<lparr>history_of := append_snapshot (history_of s) k prop\<rparr>;
          s2 = (case map_of previous_data k of
                  None \<Rightarrow> s1\<lparr>new_properties := new_properties s1 @ [prop]\<rparr>
                | Some old \<Rightarrow>
                    if price old \<noteq> price prop
                    then s1\<lparr>price_changes :=
                           price_changes s1 @ [price_change_entry prop (price old)]\<rparr>
                    else s1)
      in scan_current previous_data items s2)"

text \<open>The loop of lines 796-798 over \<^verbatim>\<open>previous_data.items()\<close>.\<close>

fun scan_previous :: "snapshot \<Rightarrow> (string \<times> listing) list \<Rightarrow> listing list \<Rightarrow> listing list" where
  "scan_previous current_data [] removed = removed"
| "scan_previous current_data ((k, prop) # items) removed =
     scan_previous current_data items
       (case map_of current_data k of None \<Rightarrow> removed @ [prop] | Some _ \<Rightarrow> removed)"

record diff =
  new_list :: "listing list"
  changed_list :: "price_change list"
  removed_list :: "listing list"

definition detect :: "snapshot \<Rightarrow> snapshot \<Rightarrow> history \<Rightarrow> diff \<times> history" where
  "detect previous_data current_data h =
     (let s = scan_current previous_data current_data
                \<lparr>history_of = h, new_properties = [], price_changes = []\<rparr>;
          removed_properties = scan_previous current_data previous_data []
      in (\<lparr>new_list = new_properties s, changed_list = price_changes s,
           removed_list = removed_properties\<rparr>, history_of s))"

text \<open>The ids of a list of listings or of price-change entries: their \<^verbatim>\<open>'id'\<close> field.\<close>

definition ids_of :: "('a listing_scheme) list \<Rightarrow> string set" where
  "ids_of props = set (map prop_id props)"

text \<open>Ids in both snapshots, split by whether \<^verbatim>\<open>previous_data[id]['price'] != prop['price']\<close>.\<close>

definition price_of :: "snapshot \<Rightarrow> string \<Rightarrow> int option" where
  "price_of d k = map_option price (map_of d k)"

definition differing :: "snapshot \<Rightarrow> snapshot \<Rightarrow> string set" where
  "differing p c = {k \<in> keys c \<inter> keys p. price_of c k \<noteq> price_of p k}"

definition unchanged :: "snapshot \<Rightarrow> snapshot \<Rightarrow> string set" where
  "unchanged p c = {k \<in> keys c \<inter> keys p. price_of c k = price_of p k}"

section \<open>The same loop over a store of dict objects\<close>

text \<open>
  \<^verbatim>\<open>history[prop_id].append(prop.copy())\<close> stores a new dict object, while
  \<^verbatim>\<open>new_properties.append(prop)\<close> stores the object of \<^verbatim>\<open>current_data\<close> itself. To tell
  the two apart the dicts live in a store: the object at address \<open>a\<close> is \<open>hp ! a\<close>, and a new
  object gets the next free address. The snapshots and the history then hold addresses. The
  entries of \<^verbatim>\<open>price_changes\<close> are dicts built by a dict display and referenced from nowhere
  else, so they stay values.
\<close>

type_synonym addr = nat
type_synonym heap = "listing list"

definition dict_copy :: "heap \<Rightarrow> addr \<Rightarrow> heap \<times> addr" where
  "dict_copy hp a = (hp @ [hp ! a], length hp)"

record scan_refs =
  heap_of :: heap
  history_refs :: "string \<rightharpoonup> addr list"
  new_refs :: "addr list"
  change_entries_of :: "price_change list"

fun scan_current_refs ::
  "(string \<times> addr) list \<Rightarrow> (string \<times> addr) list \<Rightarrow> scan_refs \<Rightarrow> scan_refs" where
  "scan_current_refs previous_data [] s = s"
| "scan_current_refs previous_data ((k, a) # items) s =
     (let (hp, a') = dict_copy (heap_of s) a;
          s1 = s\<lparr>heap_of := hp, history_refs := append_snapshot (history_refs s) k a'\<rparr>;
          s2 = (case map_of previous_data k of
                  None \<Rightarrow> s1\<lparr>new_refs := new_refs s1 @ [a]\<rparr>
                | Some b \<Rightarrow>
                    if price (hp ! b) \<noteq> price (hp ! a)
                    then s1\<lparr>change_entries_of := change_entries_of s1 @
                           [price_change_entry (hp ! a) (price (hp ! b))]\<rparr>
                    else s1)
      in scan_current_refs previous_data items s2)"

text \<open>
  Assigning to a key of the dict at address \<open>a\<close>, as \<^verbatim>\<open>d['price'] = v\<close> does, replaces the
  object at \<open>a\<close> by the updated one.
\<close>

definition assign :: "heap \<Rightarrow> addr \<Rightarrow> (listing \<Rightarrow> listing) \<Rightarrow> heap" where
  "assign hp a upd = hp[a := upd (hp ! a)]"

text \<open>Every address of a dict of references points into the store.\<close>

definition refs_ok :: "heap \<Rightarrow> (string \<times> addr) list \<Rightarrow> bool" where
  "refs_ok hp d \<longleftrightarrow> list_all (\<lambda>(k, a). a < length hp) d"

text \<open>
  Reading the store model back as values: every address replaced by the object it points
  to. \<open>scan_refs_ok\<close> says that the addresses the loop state holds point into the store.
\<close>

definition deref :: "heap \<Rightarrow> (string \<times> addr) list \<Rightarrow> snapshot" where
  "deref hp d = map (\<lambda>(k, a). (k, hp ! a)) d"

definition deref_scan :: "scan_refs \<Rightarrow> scan" where
  "deref_scan s =
     \<lparr>history_of = (\<lambda>k. map_option (map (nth (heap_of s))) (history_refs s k)),
      new_properties = map (nth (heap_of s)) (new_refs s),
      price_changes = change_entries_of s\<rparr>"

definition scan_refs_ok :: "scan_refs \<Rightarrow> bool" where
  "scan_refs_ok s \<longleftrightarrow>
     (\<forall>a \<in> set (new_refs s). a < length (heap_of s)) \<and>
     (\<forall>k. \<forall>a \<in> set (snapshots_of (history_refs s) k). a < length (heap_of s))"

section \<open>Persistence (lines 33-57)\<close>

text \<open>
  The files of the working directory are a map from path to text; an absent file has no
  entry. \<^verbatim>\<open>json.load\<close> and \<^verbatim>\<open>json.dump\<close> belong to the Python library: they are
  parameters, a decoder that may raise and an encoder.
\<close>

datatype error = JSONDecodeError | OSError

type_synonym files = "string \<rightharpoonup> string"

definition data_file :: string where
  "data_file = ''sreality_data.json''"

definition history_file :: string where
  "history_file = ''sreality_history.json''"

text \<open>
  \<^verbatim>\<open>open(path, 'r')\<close> raises \<^verbatim>\<open>FileNotFoundError\<close> for an absent file, and the handler
  returns the empty dict.
\<close>

definition load_previous_data :: "(string \<Rightarrow> error + snapshot) \<Rightarrow> files \<Rightarrow> error + snapshot" where
  "load_previous_data json_load fs =
     (case fs data_file of None \<Rightarrow> Inr [] | Some text \<Rightarrow> json_load text)"

definition load_history :: "(string \<Rightarrow> error + history) \<Rightarrow> files \<Rightarrow> error + history" where
  "load_history json_load fs =
     (case fs history_file of None \<Rightarrow> Inr Map.empty | Some text \<Rightarrow> json_load text)"

text \<open>
  \<^verbatim>\<open>with open(path, 'w', encoding='utf-8') as f: json.dump(value, f, ...)\<close>: opening for
  writing empties the file (or creates it), then the text is written into that same file.
  The fault says how the write ends: \<open>None\<close> when it completes, \<open>Some n\<close> when it raises
  (a full disk) after \<open>n\<close> characters have reached the file.
\<close>

type_synonym action = "files \<Rightarrow> files \<times> error option"

definition write_text :: "string \<Rightarrow> string \<Rightarrow> nat option \<Rightarrow> action" where
  "write_text path text fault fs =
     (case fault of
        None \<Rightarrow> (fs(path \<mapsto> text), None)
      | Some n \<Rightarrow> (fs(path \<mapsto> take n text), Some OSError))"

definition save_history :: "(history \<Rightarrow> string) \<Rightarrow> nat option \<Rightarrow> history \<Rightarrow> action" where
  "save_history json_dump fault h = write_text history_file (json_dump h) fault"

definition save_data :: "(snapshot \<Rightarrow> string) \<Rightarrow> nat option \<Rightarrow> snapshot \<Rightarrow> action" where
  "save_data json_dump fault d = write_text data_file (json_dump d) fault"

section \<open>One call of \<^verbatim>\<open>check_and_notify\<close> (lines 759-821)\<close>

text \<open>
  What a call takes from outside: the JSON decoder and encoder at the two types, the dict
  \<^verbatim>\<open>fetch_properties\<close> returns (it catches its own exceptions), the four HTML writers, how
  the two saves end. The HTML writers render files and download images; here each is an
  action on the files that may raise. \<^verbatim>\<open>upload_to_github\<close> catches every exception and
  writes none of the files, and is left out.
\<close>

record world =
  json_load_data :: "string \<Rightarrow> error + snapshot"
  json_load_history :: "string \<Rightarrow> error + history"
  json_dump_data :: "snapshot \<Rightarrow> string"
  json_dump_history :: "history \<Rightarrow> string"
  fetch_properties :: snapshot
  save_alerts_to_file :: "listing list \<Rightarrow> price_change list \<Rightarrow> action"
  save_removed_properties :: "listing list \<Rightarrow> action"
  save_complete_catalog :: "snapshot \<Rightarrow> action"
  save_property_history_html :: "history \<Rightarrow> action"
  data_fault :: "nat option"
  history_fault :: "nat option"

text \<open>
  How a call ends: an exception leaves it, or it prints \<^verbatim>\<open>No data fetched\<close> and returns at
  line 769, or it reaches its last line, which prints the sizes of the three lists.
\<close>

datatype outcome = Raised error | No_data_fetched | Found diff

definition skip :: action where
  "skip fs = (fs, None)"

definition and_then :: "action \<Rightarrow> action \<Rightarrow> action" where
  "and_then f g fs = (case f fs of (fs', None) \<Rightarrow> g fs' | (fs', Some e) \<Rightarrow> (fs', Some e))"

definition persist :: "world \<Rightarrow> diff \<Rightarrow> snapshot \<Rightarrow> history \<Rightarrow> action" where
  "persist w d current_data h =
     and_then (if new_list d \<noteq> [] \<or> changed_list d \<noteq> []
               then save_alerts_to_file w (new_list d) (changed_list d) else skip)
    (and_then (if removed_list d \<noteq> [] then save_removed_properties w (removed_list d) else skip)
    (and_then (save_complete_catalog w current_data)
    (and_then (save_property_history_html w h)
    (and_then (save_data (json_dump_data w) (data_fault w) current_data)
              (save_history (json_dump_history w) (history_fault w) h)))))"

text \<open>Lines 765-821: the call once \<^verbatim>\<open>previous_data\<close> and \<^verbatim>\<open>history\<close> are loaded.\<close>

definition fetch_and_compare :: "world \<Rightarrow> snapshot \<Rightarrow> history \<Rightarrow> files \<Rightarrow> files \<times> outcome" where
  "fetch_and_compare w previous_data h fs =
     (let current_data = fetch_properties w in
      if current_data = [] then (fs, No_data_fetched)
      else
        (let (d, h') = detect previous_data current_data h in
         case persist w d current_data h' fs of
           (fs', None) \<Rightarrow> (fs', Found d)
         | (fs', Some e) \<Rightarrow> (fs', Raised e)))"

definition check_and_notify :: "world \<Rightarrow> files \<Rightarrow> files \<times> outcome" where
  "check_and_notify w fs =
     (case load_previous_data (json_load_data w) fs of
        Inl e \<Rightarrow> (fs, Raised e)
      | Inr previous_data \<Rightarrow>
     (case load_history (json_load_history w) fs of
        Inl e \<Rightarrow> (fs, Raised e)
      | Inr h \<Rightarrow> fetch_and_compare w previous_data h fs))"

section \<open>Example data\<close>

text \<open>A listing as \<^verbatim>\<open>fetch_properties\<close> builds it for an estate that has only id and price.\<close>

definition fetched_listing :: "string \<Rightarrow> int \<Rightarrow> string \<Rightarrow> listing" where
  "fetched_listing k p t =
     \<lparr>prop_id = k, name = ''N/A'', price = p, locality = ''N/A'',
      url = ''https://www.sreality.cz/detail/prodej/dum/rodinny/ostrava/'' @ k,
      area = PStr ''N/A'', image_url = None,
      description = ''Description not available'', last_updated = t\<rparr>"

definition previous_example :: snapshot where
  "previous_example =
     [(''A'', fetched_listing ''A'' 1000000 ''t1''),
      (''B'', fetched_listing ''B'' 500000 ''t1''),
      (''D'', fetched_listing ''D'' 700000 ''t1'')]"

definition current_example :: snapshot where
  "current_example =
     [(''A'', fetched_listing ''A'' 900000 ''t2''),
      (''D'', fetched_listing ''D'' 700000 ''t2''),
      (''E'', fetched_listing ''E'' 300000 ''t2'')]"

text \<open>
  A history in which \<^verbatim>\<open>A\<close>, \<^verbatim>\<open>B\<close> and \<^verbatim>\<open>D\<close> were seen at \<^verbatim>\<open>t1\<close>, and \<^verbatim>\<open>B\<close> once before.
\<close>

definition history_example :: history where
  "history_example =
     [''A'' \<mapsto> [fetched_listing ''A'' 1000000 ''t1''],
      ''B'' \<mapsto> [fetched_listing ''B'' 500000 ''t0'', fetched_listing ''B'' 500000 ''t1''],
      ''D'' \<mapsto> [fetched_listing ''D'' 700000 ''t1'']]"

text \<open>
  A world for the examples: the files hold the text \<^verbatim>\<open>{}\<close>, which the decoders read as the
  empty dict; the encoders write \<^verbatim>\<open>{}\<close> for every value (right for the empty dict, which is
  all the examples look at); the HTML writers write nothing; no write fails.
\<close>

definition load_empty_snapshot :: "string \<Rightarrow> error + snapshot" where
  "load_empty_snapshot text = (if text = ''{}'' then Inr [] else Inl JSONDecodeError)"

definition load_empty_history :: "string \<Rightarrow> error + history" where
  "load_empty_history text = (if text = ''{}'' then Inr Map.empty else Inl JSONDecodeError)"

definition dump_braces :: "'a \<Rightarrow> string" where
  "dump_braces v = ''{}''"

definition world_example :: "snapshot \<Rightarrow> world" where
  "world_example fetched =
     \<lparr>json_load_data = load_empty_snapshot, json_load_history = load_empty_history,
      json_dump_data = dump_braces, json_dump_history = dump_braces,
      fetch_properties = fetched,
      save_alerts_to_file = (\<lambda>new changes. skip),
      save_removed_properties = (\<lambda>removed. skip),
      save_complete_catalog = (\<lambda>current. skip),
      save_property_history_html = (\<lambda>h. skip),
      data_fault = None, history_fault = None\<rparr>"

definition files_example :: files where
  "files_example = [data_file \<mapsto> ''{}'', history_file \<mapsto> ''{}'']"

text \<open>A store with one dict, and an assignment to its \<^verbatim>\<open>'price'\<close> key.\<close>

definition heap_example :: heap where
  "heap_example = [fetched_listing ''A'' 900000 ''t2'']"

definition discount :: "listing \<Rightarrow> listing" where
  "discount prop = prop\<lparr>price := 1\<rparr>"

section \<open>The two loops as list functions\<close>

fun change_entries :: "snapshot \<Rightarrow> (string \<times> listing) list \<Rightarrow> price_change list" where
  "change_entries p [] = []"
| "change_entries p ((k, prop) # items) =
     (case map_of p k of
        None \<Rightarrow> change_entries p items
      | Some old \<Rightarrow>
          if price old \<noteq> price prop
          then price_change_entry prop (price old) # change_entries p items
          else change_entries p items)"

lemma scan_current_new:
  "new_properties (scan_current p items s) =
     new_properties s @ map snd (filter (\<lambda>(k, prop). map_of p k = None) items)"
  by (induction items arbitrary: s) (auto simp: Let_def split: option.splits)

lemma scan_current_changes:
  "price_changes (scan_current p items s) = price_changes s @ change_entries p items"
  by (induction items arbitrary: s) (auto simp: Let_def split: option.splits)

lemma scan_previous_removed:
  "scan_previous c items removed =
     removed @ map snd (filter (\<lambda>(k, prop). map_of c k = None) items)"
  by (induction items arbitrary: removed) (auto split: option.splits)

lemma scan_current_history:
  "distinct (map fst items) \<Longrightarrow>
   history_of (scan_current p items s) k =
     (case map_of items k of
        None \<Rightarrow> history_of s k
      | Some prop \<Rightarrow> Some (snapshots_of (history_of s) k @ [prop]))"
proof (induction items arbitrary: s)
  case Nil
  then show ?case by simp
next
  case (Cons a items)
  obtain k' prop' where a: "a = (k', prop')" by (cases a)
  from Cons.prems a have d: "distinct (map fst items)" and n: "map_of items k' = None"
    by (auto simp: map_of_eq_None_iff)
  show ?case
    using n by (auto simp: a Let_def Cons.IH [OF d] append_snapshot_def snapshots_of_def
      split: option.splits)
qed

lemma prop_id_entry [simp]: "prop_id (price_change_entry prop old) = prop_id prop"
  by (simp add: price_change_entry_def listing.defs price_change.defs)

lemma entry_fields:
  "old_price (price_change_entry prop old) = old"
  "price_diff (price_change_entry prop old) = price prop - old"
  "price (price_change_entry prop old) = price prop"
  "listing.truncate (price_change_entry prop old) = prop"
  by (simp_all add: price_change_entry_def listing.defs price_change.defs)

lemma absent_iff: "map_of d k = None \<longleftrightarrow> k \<notin> keys d"
  by (simp add: keys_def map_of_eq_None_iff)

lemma present_iff: "k \<in> keys d \<longleftrightarrow> (\<exists>prop. map_of d k = Some prop)"
  using absent_iff [of d k] by auto

lemma keyedD: "keyed_by_id d \<Longrightarrow> (k, prop) \<in> set d \<Longrightarrow> prop_id prop = k"
  by (auto simp: keyed_by_id_def list_all_iff)

lemma ids_of_absent:
  assumes kd: "keyed_by_id d"
  shows "ids_of (map snd (filter (\<lambda>(k, prop). map_of e k = None) d)) = keys d - keys e"
proof -
  have "ids_of (map snd (filter (\<lambda>(k, prop). map_of e k = None) d)) =
      (\<lambda>x. prop_id (snd x)) ` {x \<in> set d. fst x \<notin> keys e}"
    by (auto simp: ids_of_def absent_iff)
  also have "\<dots> = fst ` {x \<in> set d. fst x \<notin> keys e}"
    by (rule image_cong) (use kd in \<open>auto dest: keyedD\<close>)
  also have "\<dots> = keys d - keys e"
    by (force simp: keys_def)
  finally show ?thesis .
qed

lemma ids_of_change_entries:
  "keyed_by_id items \<Longrightarrow>
   ids_of (change_entries p items) =
     {k. \<exists>prop old. (k, prop) \<in> set items \<and> map_of p k = Some old \<and> price old \<noteq> price prop}"
proof (induction items)
  case Nil
  then show ?case by (simp add: ids_of_def)
next
  case (Cons a items)
  obtain k' prop' where a: "a = (k', prop')" by (cases a)
  from Cons.prems a have k: "prop_id prop' = k'" and ki: "keyed_by_id items"
    by (simp_all add: keyed_by_id_def)
  have ih: "set (map prop_id (change_entries p items)) =
     {k. \<exists>prop old. (k, prop) \<in> set items \<and> map_of p k = Some old \<and> price old \<noteq> price prop}"
    using Cons.IH [OF ki] by (simp add: ids_of_def)
  show ?case
  proof (cases "map_of p k'")
    case None
    then show ?thesis using ih by (auto simp: a ids_of_def)
  next
    case (Some old)
    then show ?thesis using ih k by (auto simp: a ids_of_def)
  qed
qed

lemma differing_alt:
  assumes "dict_keys_ok c"
  shows "differing p c =
     {k. \<exists>prop old. (k, prop) \<in> set c \<and> map_of p k = Some old \<and> price old \<noteq> price prop}"
proof -
  have m: "\<And>k prop. (k, prop) \<in> set c \<longleftrightarrow> map_of c k = Some prop"
    using assms by (simp add: dict_keys_ok_def)
  show ?thesis
    by (auto simp: differing_def price_of_def m present_iff)
qed

lemma current_example_ok: "dict_keys_ok current_example \<and> keyed_by_id current_example"
  by (simp add: dict_keys_ok_def keyed_by_id_def current_example_def fetched_listing_def)

lemma previous_example_ok: "dict_keys_ok previous_example \<and> keyed_by_id previous_example"
  by (simp add: dict_keys_ok_def keyed_by_id_def previous_example_def fetched_listing_def)

lemma snapshots_of_append [simp]:
  "snapshots_of (append_snapshot h k' x) k =
     (if k = k' then snapshots_of h k @ [x] else snapshots_of h k)"
  by (simp add: append_snapshot_def snapshots_of_def)





lemma detect_history: "snd (detect p c h) =
   history_of (scan_current p c \<lparr>history_of = h, new_properties = [], price_changes = []\<rparr>)"
  by (simp add: detect_def Let_def)

lemma detect_lists:
  "new_list (fst (detect p c h)) = map snd (filter (\<lambda>(k, prop). map_of p k = None) c)"
  "changed_list (fst (detect p c h)) = change_entries p c"
  "removed_list (fst (detect p c h)) = map snd (filter (\<lambda>(k, prop). map_of c k = None) p)"
  by (simp_all add: detect_def Let_def scan_current_new scan_current_changes scan_previous_removed)

lemma detect_history_eq:
  "dict_keys_ok c \<Longrightarrow>
   snd (detect p c h) k =
     (case map_of c k of None \<Rightarrow> h k | Some prop \<Rightarrow> Some (snapshots_of h k @ [prop]))"
  using scan_current_history
    [of c p "\<lparr>history_of = h, new_properties = [], price_changes = []\<rparr>" k]
  by (simp add: detect_history dict_keys_ok_def split: option.splits)


lemma change_entries_mem:
  "(k, prop) \<in> set items \<Longrightarrow> map_of p k = Some old \<Longrightarrow> price old \<noteq> price prop \<Longrightarrow>
   price_change_entry prop (price old) \<in> set (change_entries p items)"
  by (induction items) (auto split: option.splits)

lemma change_entries_diff:
  "e \<in> set (change_entries p items) \<Longrightarrow>
   price_diff e = price e - old_price e \<and> price_diff e \<noteq> 0"
  by (induction items) (auto simp: entry_fields split: option.splits if_splits)

section \<open>Classification of ids\<close>

text \<open>
  Claim C1. For a previous snapshot \<open>p\<close> and a current snapshot \<open>c\<close> (a dict, so with distinct
  keys, each listing stored under its own id), the detection pass classifies the ids exactly:
  the ids of the new list are the keys of \<open>c\<close> that are not keys of \<open>p\<close>; the ids of the
  removed list are the keys of \<open>p\<close> that are not keys of \<open>c\<close>; the ids of the price-change
  list are the keys of both whose prices differ. The three sets are pairwise disjoint, and
  the new ids, the changed ids and the ids in both with equal price together are the keys of
  \<open>c\<close>. The pass runs for a non-empty \<open>c\<close> only; the statement holds for every \<open>c\<close>.
\<close>

theorem detect_classification:
  assumes "dict_keys_ok c" and "keyed_by_id c" and "keyed_by_id p"
  shows "ids_of (new_list (fst (detect p c h))) = keys c - keys p \<and>
    ids_of (removed_list (fst (detect p c h))) = keys p - keys c \<and>
    ids_of (changed_list (fst (detect p c h))) = differing p c \<and>
    ids_of (new_list (fst (detect p c h))) \<inter> ids_of (changed_list (fst (detect p c h))) = {} \<and>
    ids_of (new_list (fst (detect p c h))) \<inter> ids_of (removed_list (fst (detect p c h))) = {} \<and>
    ids_of (changed_list (fst (detect p c h))) \<inter> ids_of (removed_list (fst (detect p c h))) = {} \<and>
    ids_of (new_list (fst (detect p c h))) \<union> ids_of (changed_list (fst (detect p c h)))
      \<union> unchanged p c = keys c"
proof -
  have n: "ids_of (new_list (fst (detect p c h))) = keys c - keys p"
    using assms(2) by (simp add: detect_def Let_def scan_current_new ids_of_absent)
  have r: "ids_of (removed_list (fst (detect p c h))) = keys p - keys c"
    using assms(3) by (simp add: detect_def Let_def scan_previous_removed ids_of_absent)
  have ch: "ids_of (changed_list (fst (detect p c h))) = differing p c"
    using assms(1,2)
    by (simp add: detect_def Let_def scan_current_changes ids_of_change_entries differing_alt)
  have u: "differing p c \<union> unchanged p c = keys c \<inter> keys p"
    by (auto simp: differing_def unchanged_def)
  have sub: "differing p c \<subseteq> keys c \<inter> keys p"
    by (auto simp: differing_def)
  show ?thesis
    unfolding n r ch using u sub by blast
qed

theorem detect_classification_witness:
  "current_example \<noteq> [] \<and> dict_keys_ok current_example \<and> keyed_by_id current_example \<and>
   keyed_by_id previous_example \<and>
   ids_of (new_list (fst (detect previous_example current_example Map.empty))) = {''E''} \<and>
   ids_of (removed_list (fst (detect previous_example current_example Map.empty))) = {''B''} \<and>
   ids_of (changed_list (fst (detect previous_example current_example Map.empty))) = {''A''} \<and>
   unchanged previous_example current_example = {''D''}"
proof -
  have k1: "keys current_example - keys previous_example = {''E''}"
    by (auto simp: keys_def current_example_def previous_example_def)
  have k2: "keys previous_example - keys current_example = {''B''}"
    by (auto simp: keys_def current_example_def previous_example_def)
  have k3: "differing previous_example current_example = {''A''}"
    by (auto simp: differing_def price_of_def keys_def current_example_def
        previous_example_def fetched_listing_def)
  have k4: "unchanged previous_example current_example = {''D''}"
    by (auto simp: unchanged_def price_of_def keys_def current_example_def
        previous_example_def fetched_listing_def)
  have ne: "current_example \<noteq> []"
    by (simp add: current_example_def)
  from current_example_ok previous_example_ok
  have h: "dict_keys_ok current_example" "keyed_by_id current_example"
    "keyed_by_id previous_example"
    by simp_all
  show ?thesis
    using detect_classification [OF h, of Map.empty] h ne k4
    unfolding k1 k2 k3 by simp
qed

section \<open>History accumulation\<close>

text \<open>
  Claim C2. For a current snapshot \<open>c\<close> with distinct keys and every history \<open>h\<close>, the
  detection pass appends exactly one record to the history list of every id of \<open>c\<close>, the list
  being taken as empty when \<open>h\<close> has none for the id, whatever the previous snapshot says about
  the id; the appended record is the listing of \<open>c\<close>, so its price is that of \<open>c\<close>. The list of
  an id outside \<open>c\<close> is the one of \<open>h\<close>.
\<close>

theorem detect_history_append:
  assumes "dict_keys_ok c"
  shows "(\<forall>prop. map_of c k = Some prop \<longrightarrow>
            snd (detect p c h) k = Some (snapshots_of h k @ [prop]) \<and>
            price (last (snapshots_of (snd (detect p c h)) k)) = price prop \<and>
            length (snapshots_of (snd (detect p c h)) k) = Suc (length (snapshots_of h k))) \<and>
         (k \<notin> keys c \<longrightarrow> snd (detect p c h) k = h k)"
proof -
  note e = detect_history_eq [OF assms, of p h k]
  show ?thesis
    by (auto simp: e snapshots_of_def absent_iff [symmetric])
qed

theorem detect_history_append_witness:
  "dict_keys_ok current_example \<and>
   map_of current_example ''E'' = Some (fetched_listing ''E'' 300000 ''t2'') \<and>
   history_example ''E'' = None \<and>
   snd (detect previous_example current_example history_example) ''E'' =
     Some [fetched_listing ''E'' 300000 ''t2''] \<and>
   price (last (snapshots_of (snd (detect previous_example current_example history_example)) ''E''))
     = 300000 \<and>
   ''B'' \<notin> keys current_example \<and>
   snd (detect previous_example current_example history_example) ''B'' = history_example ''B''"
proof -
  have ok: "dict_keys_ok current_example"
    using current_example_ok by simp
  have e: "map_of current_example ''E'' = Some (fetched_listing ''E'' 300000 ''t2'')"
    by (simp add: current_example_def)
  have b: "''B'' \<notin> keys current_example"
    by (simp add: keys_def current_example_def)
  have n: "history_example ''E'' = None" "snapshots_of history_example ''E'' = []"
    by (simp_all add: history_example_def snapshots_of_def)
  have p: "price (fetched_listing ''E'' 300000 ''t2'') = 300000"
    by (simp add: fetched_listing_def)
  show ?thesis
    using detect_history_append [OF ok, of "''E''" previous_example history_example]
      detect_history_append [OF ok, of "''B''" previous_example history_example]
      ok e b n p
    by simp
qed




text \<open>
  Claim C9. An id that is absent from the previous snapshot while the loaded history still
  has a list for it (it was removed in an earlier cycle and is listed again) is reported as
  new, and its record is appended to the list the history already has: the earlier entries
  stay in front of it.
\<close>

theorem relisted_history_extended:
  assumes "dict_keys_ok c" and "map_of c k = Some prop" and "map_of p k = None"
    and "h k = Some snaps"
  shows "snd (detect p c h) k = Some (snaps @ [prop]) \<and>
     prop \<in> set (new_list (fst (detect p c h)))"
proof -
  have "snd (detect p c h) k = Some (snapshots_of h k @ [prop])"
    using detect_history_eq [OF assms(1), of p h k] assms(2) by simp
  moreover have "prop \<in> set (new_list (fst (detect p c h)))"
    using map_of_SomeD [OF assms(2)] assms(3) by (force simp: detect_lists)
  ultimately show ?thesis
    using assms(4) by (simp add: snapshots_of_def)
qed

theorem relisted_history_extended_witness:
  "dict_keys_ok [(''B'', fetched_listing ''B'' 450000 ''t3'')] \<and>
   map_of current_example ''B'' = None \<and>
   snd (detect current_example [(''B'', fetched_listing ''B'' 450000 ''t3'')] history_example) ''B''
     = Some [fetched_listing ''B'' 500000 ''t0'', fetched_listing ''B'' 500000 ''t1'',
             fetched_listing ''B'' 450000 ''t3''] \<and>
   fetched_listing ''B'' 450000 ''t3'' \<in> set (new_list (fst
     (detect current_example [(''B'', fetched_listing ''B'' 450000 ''t3'')] history_example)))"
proof -
  have ok: "dict_keys_ok [(''B'', fetched_listing ''B'' 450000 ''t3'')]"
    by (simp add: dict_keys_ok_def)
  have c: "map_of [(''B'', fetched_listing ''B'' 450000 ''t3'')] ''B'' =
      Some (fetched_listing ''B'' 450000 ''t3'')"
    by simp
  have p: "map_of current_example ''B'' = None"
    by (simp add: current_example_def)
  have h: "history_example ''B'' =
      Some [fetched_listing ''B'' 500000 ''t0'', fetched_listing ''B'' 500000 ''t1'']"
    by (simp add: history_example_def)
  show ?thesis
    using relisted_history_extended
        [where h = history_example and k = "''B''" and p = current_example, OF ok c p h] ok p
    by simp
qed

section \<open>Price changes\<close>

text \<open>
  Claim C5. For an id in both snapshots whose prices differ, the price-change list holds the
  entry made of the current listing, the old price and the difference: its \<^verbatim>\<open>old_price\<close> is
  the previous price, its \<^verbatim>\<open>price\<close> the current one and its \<^verbatim>\<open>price_diff\<close> the current
  price minus the previous one. Every entry of the list has \<^verbatim>\<open>price_diff\<close> equal to
  \<^verbatim>\<open>price\<close> minus \<^verbatim>\<open>old_price\<close>. For 1000000 before and 900000 now the difference is
  -100000.
\<close>

theorem price_change_carries_delta:
  assumes "map_of c k = Some prop" and "map_of p k = Some old" and "price old \<noteq> price prop"
  shows "price_change_entry prop (price old) \<in> set (changed_list (fst (detect p c h))) \<and>
     old_price (price_change_entry prop (price old)) = price old \<and>
     price (price_change_entry prop (price old)) = price prop \<and>
     price_diff (price_change_entry prop (price old)) = price prop - price old \<and>
     listing.truncate (price_change_entry prop (price old)) = prop \<and>
     (\<forall>e \<in> set (changed_list (fst (detect p c h))). price_diff e = price e - old_price e)"
  using assms change_entries_mem [OF map_of_SomeD [OF assms(1)] assms(2,3)]
  by (simp add: detect_lists entry_fields change_entries_diff)

theorem price_change_carries_delta_witness:
  "map_of current_example ''A'' = Some (fetched_listing ''A'' 900000 ''t2'') \<and>
   map_of previous_example ''A'' = Some (fetched_listing ''A'' 1000000 ''t1'') \<and>
   price_change_entry (fetched_listing ''A'' 900000 ''t2'') 1000000
     \<in> set (changed_list (fst (detect previous_example current_example history_example))) \<and>
   old_price (price_change_entry (fetched_listing ''A'' 900000 ''t2'') 1000000) = 1000000 \<and>
   price (price_change_entry (fetched_listing ''A'' 900000 ''t2'') 1000000) = 900000 \<and>
   price_diff (price_change_entry (fetched_listing ''A'' 900000 ''t2'') 1000000) = - 100000"
proof -
  have c: "map_of current_example ''A'' = Some (fetched_listing ''A'' 900000 ''t2'')"
    by (simp add: current_example_def)
  have p: "map_of previous_example ''A'' = Some (fetched_listing ''A'' 1000000 ''t1'')"
    by (simp add: previous_example_def)
  have v: "price (fetched_listing ''A'' 1000000 ''t1'') = 1000000"
    "price (fetched_listing ''A'' 900000 ''t2'') = 900000"
    by (simp_all add: fetched_listing_def)
  have d: "price (fetched_listing ''A'' 1000000 ''t1'') \<noteq> price (fetched_listing ''A'' 900000 ''t2'')"
    by (simp add: v)
  show ?thesis
    using price_change_carries_delta [OF c p d, of history_example] c p
    by (simp add: v)
qed

section \<open>The guard on an empty fetch\<close>





section \<open>Loading and saving\<close>

text \<open>
  Claim C7. Loading the snapshot file when it is absent returns the empty dict, and so does
  loading the history file when it is absent; no error is raised. With both files absent the
  call goes on from \<^verbatim>\<open>previous_data = {}\<close> and \<^verbatim>\<open>history = {}\<close>.
\<close>

theorem absent_files_load_empty:
  "(fs data_file = None \<longrightarrow> load_previous_data json_load_d fs = Inr []) \<and>
   (fs history_file = None \<longrightarrow> load_history json_load_h fs = Inr Map.empty) \<and>
   (fs data_file = None \<and> fs history_file = None \<longrightarrow>
      check_and_notify w fs = fetch_and_compare w [] Map.empty fs)"
  by (simp add: load_previous_data_def load_history_def check_and_notify_def)

theorem absent_files_load_empty_witness:
  "Map.empty data_file = (None :: string option) \<and>
   Map.empty history_file = (None :: string option) \<and>
   load_previous_data load_empty_snapshot Map.empty = Inr [] \<and>
   load_history load_empty_history Map.empty = Inr Map.empty \<and>
   check_and_notify (world_example current_example) Map.empty =
     fetch_and_compare (world_example current_example) [] Map.empty Map.empty"
  using absent_files_load_empty
    [of Map.empty load_empty_snapshot load_empty_history "world_example current_example"]
  by simp

text \<open>
  Loading after a completed save returns what the decoder makes of the text the encoder
  wrote: the save replaces the whole file the load reads, and adds nothing of its own.
\<close>

lemma load_after_save:
  "load_history json_load (fst (save_history json_dump None h fs)) = json_load (json_dump h)"
  "load_previous_data json_load' (fst (save_data json_dump' None d fs)) =
     json_load' (json_dump' d)"
  by (simp_all add: load_history_def load_previous_data_def save_history_def save_data_def
      write_text_def)

text \<open>
  Claim C6, as the code has it. \<^verbatim>\<open>save_history\<close> and \<^verbatim>\<open>save_data\<close> open their file for
  writing, which empties it, and write the text into it. When the write completes the file
  holds the whole text; when it fails after \<open>n\<close> characters the file holds the first \<open>n\<close>
  characters of the new text and the \<^verbatim>\<open>OSError\<close> leaves the function. Nothing is written
  elsewhere first and renamed, and the text the file held before is not kept. A save
  changes no file but its own.
\<close>

theorem save_overwrites_in_place:
  "save_history json_dump None h fs = (fs(history_file \<mapsto> json_dump h), None) \<and>
   save_history json_dump (Some n) h fs = (fs(history_file \<mapsto> take n (json_dump h)), Some OSError) \<and>
   save_data json_dump' None d fs = (fs(data_file \<mapsto> json_dump' d), None) \<and>
   save_data json_dump' (Some n) d fs = (fs(data_file \<mapsto> take n (json_dump' d)), Some OSError) \<and>
   (\<forall>path. path \<noteq> history_file \<longrightarrow>
      fst (save_history json_dump fault h fs) path = fs path) \<and>
   (\<forall>path. path \<noteq> data_file \<longrightarrow>
      fst (save_data json_dump' fault d fs) path = fs path)"
  by (simp add: save_history_def save_data_def write_text_def split: option.splits)

theorem save_overwrites_in_place_witness:
  "save_history dump_braces (Some 0) Map.empty files_example =
     (files_example(history_file \<mapsto> []), Some OSError) \<and>
   save_data dump_braces None [] files_example = (files_example(data_file \<mapsto> ''{}''), None) \<and>
   data_file \<noteq> history_file \<and>
   fst (save_history dump_braces (Some 0) Map.empty files_example) data_file = Some ''{}''"
proof -
  have ne: "data_file \<noteq> history_file"
    by (simp add: data_file_def history_file_def)
  have v: "files_example data_file = Some ''{}''"
    by (simp add: files_example_def ne)
  show ?thesis
    using save_overwrites_in_place
      [where json_dump = dump_braces and h = Map.empty and fs = files_example and n = 0
        and json_dump' = dump_braces and d = "[]" and fault = "Some 0"] ne v
    by (simp add: dump_braces_def)
qed

text \<open>
  Claim C6 as the specification states it, that a write failing half-way leaves the file
  persisted before intact, fails: the history file holds \<^verbatim>\<open>{}\<close>, the save of the empty
  history fails after one character, and the file holds \<^verbatim>\<open>{\<close>.
\<close>

theorem save_not_atomic_counterexample:
  "files_example history_file = Some ''{}'' \<and>
   save_history dump_braces (Some 1) Map.empty files_example =
     (files_example(history_file \<mapsto> ''{''), Some OSError) \<and>
   fst (save_history dump_braces (Some 1) Map.empty files_example) history_file \<noteq>
     files_example history_file"
  by (simp add: save_history_def write_text_def dump_braces_def files_example_def
      data_file_def history_file_def)

section \<open>The history entry is a copy\<close>

lemma scan_current_refs_step:
  "\<exists>s2. scan_current_refs p ((k, a) # items) s = scan_current_refs p items s2 \<and>
        heap_of s2 = heap_of s @ [heap_of s ! a] \<and>
        history_refs s2 = append_snapshot (history_refs s) k (length (heap_of s))"
  by (auto simp: Let_def dict_copy_def split: option.splits)

lemma scan_current_refs_heap:
  "prefix (heap_of s) (heap_of (scan_current_refs p items s))"
proof (induction items arbitrary: s)
  case Nil
  then show ?case by simp
next
  case (Cons x items)
  obtain k a where x: "x = (k, a)" by (cases x)
  obtain s2 where s2: "scan_current_refs p (x # items) s = scan_current_refs p items s2"
    and hp2: "heap_of s2 = heap_of s @ [heap_of s ! a]"
    using scan_current_refs_step [of p k a items s] x by auto
  have "prefix (heap_of s) (heap_of s2)"
    by (simp add: hp2)
  also have "prefix \<dots> (heap_of (scan_current_refs p items s2))"
    by (rule Cons.IH)
  finally show ?case by (simp add: s2)
qed

lemma prefix_nth: "prefix xs ys \<Longrightarrow> i < length xs \<Longrightarrow> ys ! i = xs ! i"
  by (auto simp: prefix_def nth_append)

lemma scan_current_refs_other:
  "k \<notin> fst ` set items \<Longrightarrow>
   history_refs (scan_current_refs p items s) k = history_refs s k"
proof (induction items arbitrary: s)
  case Nil
  then show ?case by simp
next
  case (Cons x items)
  obtain k' a where x: "x = (k', a)" by (cases x)
  obtain s2 where s2: "scan_current_refs p (x # items) s = scan_current_refs p items s2"
    and h2: "history_refs s2 = append_snapshot (history_refs s) k' (length (heap_of s))"
    using scan_current_refs_step [of p k' a items s] x by auto
  from Cons.prems x have ne: "k \<noteq> k'" and rest: "k \<notin> fst ` set items"
    by auto
  show ?case
    using Cons.IH [OF rest, of s2] ne by (simp add: s2 h2 append_snapshot_def)
qed

lemma scan_current_refs_entry:
  assumes "distinct (map fst items)" and "(k, a) \<in> set items" and "a < length (heap_of s)"
  shows "\<exists>a'. history_refs (scan_current_refs p items s) k =
           Some (snapshots_of (history_refs s) k @ [a']) \<and>
         length (heap_of s) \<le> a' \<and> a' < length (heap_of (scan_current_refs p items s)) \<and>
         heap_of (scan_current_refs p items s) ! a' = heap_of s ! a"
  using assms
proof (induction items arbitrary: s)
  case Nil
  then show ?case by simp
next
  case (Cons x items)
  obtain k' a0 where x: "x = (k', a0)" by (cases x)
  obtain s2 where s2: "scan_current_refs p (x # items) s = scan_current_refs p items s2"
    and hp2: "heap_of s2 = heap_of s @ [heap_of s ! a0]"
    and h2: "history_refs s2 = append_snapshot (history_refs s) k' (length (heap_of s))"
    using scan_current_refs_step [of p k' a0 items s] x by auto
  let ?r = "scan_current_refs p items s2"
  have pre: "prefix (heap_of s2) (heap_of ?r)"
    by (rule scan_current_refs_heap)
  from Cons.prems(1) x have d: "distinct (map fst items)" and fresh: "k' \<notin> fst ` set items"
    by auto
  show ?case
  proof (cases "k = k'")
    case True
    with Cons.prems(2) x fresh have a0: "a0 = a"
      by (auto simp: image_iff)
    have hist: "history_refs ?r k = Some (snapshots_of (history_refs s) k @ [length (heap_of s)])"
      using scan_current_refs_other [OF fresh, of p s2] True
      by (simp add: h2 append_snapshot_def)
    have lt: "length (heap_of s) < length (heap_of s2)"
      by (simp add: hp2)
    then have lt': "length (heap_of s) < length (heap_of ?r)"
      using prefix_length_le [OF pre] by simp
    have "heap_of ?r ! length (heap_of s) = heap_of s2 ! length (heap_of s)"
      using prefix_nth [OF pre lt] .
    then have "heap_of ?r ! length (heap_of s) = heap_of s ! a"
      by (simp add: hp2 a0)
    with hist lt' show ?thesis
      by (simp add: s2)
  next
    case False
    with Cons.prems(2) x have mem: "(k, a) \<in> set items" by auto
    have a2: "a < length (heap_of s2)"
      using Cons.prems(3) by (simp add: hp2)
    from Cons.IH [OF d mem a2] obtain a' where
      h: "history_refs ?r k = Some (snapshots_of (history_refs s2) k @ [a'])"
      and lo: "length (heap_of s2) \<le> a'" and hi: "a' < length (heap_of ?r)"
      and v: "heap_of ?r ! a' = heap_of s2 ! a"
      by blast
    have "snapshots_of (history_refs s2) k = snapshots_of (history_refs s) k"
      using False by (simp add: h2 append_snapshot_def snapshots_of_def)
    moreover have "heap_of s2 ! a = heap_of s ! a"
      using Cons.prems(3) by (simp add: hp2 nth_append)
    moreover have "length (heap_of s) \<le> a'"
      using lo by (simp add: hp2)
    ultimately show ?thesis
      using h hi v by (simp add: s2)
  qed
qed

text \<open>
  The loop over the store computes, once every address is read, what the loop over values
  computes: the two models are the same program.
\<close>

lemma map_of_deref: "map_of (deref hp d) k = map_option (nth hp) (map_of d k)"
  by (induction d) (auto simp: deref_def)

lemma refs_okD: "refs_ok hp d \<Longrightarrow> map_of d k = Some b \<Longrightarrow> b < length hp"
  by (auto simp: refs_ok_def list_all_iff dest: map_of_SomeD)

lemma refs_ok_grow: "refs_ok hp d \<Longrightarrow> refs_ok (hp @ ext) d"
  by (auto simp: refs_ok_def list_all_iff)

lemma deref_grow: "refs_ok hp d \<Longrightarrow> deref (hp @ ext) d = deref hp d"
  by (auto simp: refs_ok_def list_all_iff deref_def nth_append)

lemma map_nth_grow: "\<forall>a \<in> set as. a < length hp \<Longrightarrow> map (nth (hp @ ext)) as = map (nth hp) as"
  by (auto simp: nth_append)

lemma step_refines:
  assumes p: "refs_ok (heap_of s) p" and a: "a < length (heap_of s)" and ok: "scan_refs_ok s"
  shows "\<exists>s2. scan_current_refs p ((k, a) # items) s = scan_current_refs p items s2 \<and>
      heap_of s2 = heap_of s @ [heap_of s ! a] \<and> scan_refs_ok s2 \<and>
      scan_current (deref (heap_of s) p) ((k, heap_of s ! a) # its) (deref_scan s) =
        scan_current (deref (heap_of s) p) its (deref_scan s2)"
proof -
  let ?hp = "heap_of s"
  let ?hp2 = "?hp @ [?hp ! a]"
  let ?s1 = "s\<lparr>heap_of := ?hp2, history_refs := append_snapshot (history_refs s) k (length ?hp)\<rparr>"
  from ok have n: "\<forall>x \<in> set (new_refs s). x < length ?hp"
    and h: "\<And>k'. \<forall>x \<in> set (snapshots_of (history_refs s) k'). x < length ?hp"
    by (auto simp: scan_refs_ok_def)
  have ok1: "scan_refs_ok ?s1"
    using n h by (auto simp: scan_refs_ok_def less_Suc_eq)
  have hist1: "history_of (deref_scan ?s1) =
      append_snapshot (history_of (deref_scan s)) k (?hp ! a)"
  proof
    fix k'
    have "map (nth ?hp2) (snapshots_of (history_refs s) k') =
        map (nth ?hp) (snapshots_of (history_refs s) k')"
      using h [of k'] by (rule map_nth_grow)
    then show "history_of (deref_scan ?s1) k' =
        append_snapshot (history_of (deref_scan s)) k (?hp ! a) k'"
      by (cases "history_refs s k'")
        (auto simp: deref_scan_def append_snapshot_def snapshots_of_def)
  qed
  have new1: "map (nth ?hp2) (new_refs s) = map (nth ?hp) (new_refs s)"
    using n by (rule map_nth_grow)
  have a2: "?hp2 ! a = ?hp ! a"
    using a by (simp add: nth_append)
  show ?thesis
  proof (cases "map_of p k")
    case None
    let ?s2 = "?s1\<lparr>new_refs := new_refs ?s1 @ [a]\<rparr>"
    have "scan_refs_ok ?s2"
      using ok1 a by (auto simp: scan_refs_ok_def)
    moreover have "deref_scan ?s2 =
        (deref_scan s)\<lparr>history_of := append_snapshot (history_of (deref_scan s)) k (?hp ! a),
           new_properties := new_properties (deref_scan s) @ [?hp ! a]\<rparr>"
      using hist1 new1 a2 by (simp add: deref_scan_def)
    ultimately show ?thesis
      using None
      by (intro exI [of _ ?s2]) (simp add: Let_def dict_copy_def map_of_deref)
  next
    case (Some b)
    from refs_okD [OF p Some] have b2: "?hp2 ! b = ?hp ! b"
      by (simp add: nth_append)
    show ?thesis
    proof (cases "price (?hp ! b) \<noteq> price (?hp ! a)")
      case True
      let ?s2 = "?s1\<lparr>change_entries_of := change_entries_of ?s1 @
          [price_change_entry (?hp ! a) (price (?hp ! b))]\<rparr>"
      have "scan_refs_ok ?s2"
        using ok1 by (auto simp: scan_refs_ok_def)
      moreover have "deref_scan ?s2 =
          (deref_scan s)\<lparr>history_of := append_snapshot (history_of (deref_scan s)) k (?hp ! a),
             price_changes := price_changes (deref_scan s) @
               [price_change_entry (?hp ! a) (price (?hp ! b))]\<rparr>"
        using hist1 new1 by (simp add: deref_scan_def)
      ultimately show ?thesis
        using Some True a2 b2
        by (intro exI [of _ ?s2]) (simp add: Let_def dict_copy_def map_of_deref)
    next
      case False
      have "deref_scan ?s1 =
          (deref_scan s)\<lparr>history_of := append_snapshot (history_of (deref_scan s)) k (?hp ! a)\<rparr>"
        using hist1 new1 by (simp add: deref_scan_def)
      then show ?thesis
        using Some False a2 b2 ok1
        by (intro exI [of _ ?s1]) (simp add: Let_def dict_copy_def map_of_deref)
    qed
  qed
qed

lemma scan_current_refs_refines:
  assumes "refs_ok (heap_of s) p" and "refs_ok (heap_of s) c" and "scan_refs_ok s"
  shows "deref_scan (scan_current_refs p c s) =
     scan_current (deref (heap_of s) p) (deref (heap_of s) c) (deref_scan s)"
  using assms
proof (induction c arbitrary: s)
  case Nil
  then show ?case by (simp add: deref_def)
next
  case (Cons x c)
  obtain k a where x: "x = (k, a)" by (cases x)
  from Cons.prems(2) x have a: "a < length (heap_of s)" and c: "refs_ok (heap_of s) c"
    by (simp_all add: refs_ok_def)
  from step_refines [OF Cons.prems(1) a Cons.prems(3), of k c "deref (heap_of s) c"]
  obtain s2 where s2: "scan_current_refs p ((k, a) # c) s = scan_current_refs p c s2"
    and hp2: "heap_of s2 = heap_of s @ [heap_of s ! a]" and ok2: "scan_refs_ok s2"
    and v: "scan_current (deref (heap_of s) p) ((k, heap_of s ! a) # deref (heap_of s) c)
        (deref_scan s) = scan_current (deref (heap_of s) p) (deref (heap_of s) c) (deref_scan s2)"
    by blast
  have p2: "refs_ok (heap_of s2) p" and c2: "refs_ok (heap_of s2) c"
    using Cons.prems(1) c by (simp_all add: hp2 refs_ok_grow)
  have "deref_scan (scan_current_refs p c s2) =
      scan_current (deref (heap_of s2) p) (deref (heap_of s2) c) (deref_scan s2)"
    by (rule Cons.IH [OF p2 c2 ok2])
  also have "\<dots> = scan_current (deref (heap_of s) p) (deref (heap_of s) c) (deref_scan s2)"
    using Cons.prems(1) c by (simp add: hp2 deref_grow)
  finally have r: "deref_scan (scan_current_refs p c s2) =
      scan_current (deref (heap_of s) p) (deref (heap_of s) c) (deref_scan s2)" .
  have dx: "deref (heap_of s) ((k, a) # c) = (k, heap_of s ! a) # deref (heap_of s) c"
    by (simp add: deref_def)
  show ?case
    by (simp only: x dx s2 v r)
qed

text \<open>
  Claim C10. The record the detection pass appends to the history of an id is a new dict
  object with the content of the current listing, not the object of \<^verbatim>\<open>current_data\<close>: its
  address differs from the address \<open>a\<close> of the current listing, so assigning to a key of
  \<^verbatim>\<open>current_data[id]\<close> after the pass leaves the history entry as it was appended, and
  assigning to a key of the history entry leaves \<^verbatim>\<open>current_data[id]\<close> as it was.
\<close>

theorem history_entry_is_a_copy:
  assumes "distinct (map fst c)" and "refs_ok hp c" and "(k, a) \<in> set c"
  shows "\<exists>a'. history_refs (scan_current_refs p c
             \<lparr>heap_of = hp, history_refs = hrefs, new_refs = [], change_entries_of = []\<rparr>) k
           = Some (snapshots_of hrefs k @ [a']) \<and>
     a' \<noteq> a \<and>
     heap_of (scan_current_refs p c
        \<lparr>heap_of = hp, history_refs = hrefs, new_refs = [], change_entries_of = []\<rparr>) ! a'
       = hp ! a \<and>
     heap_of (scan_current_refs p c
        \<lparr>heap_of = hp, history_refs = hrefs, new_refs = [], change_entries_of = []\<rparr>) ! a
       = hp ! a \<and>
     (\<forall>upd. assign (heap_of (scan_current_refs p c
        \<lparr>heap_of = hp, history_refs = hrefs, new_refs = [], change_entries_of = []\<rparr>)) a upd ! a'
       = hp ! a) \<and>
     (\<forall>upd. assign (heap_of (scan_current_refs p c
        \<lparr>heap_of = hp, history_refs = hrefs, new_refs = [], change_entries_of = []\<rparr>)) a' upd ! a
       = hp ! a)"
proof -
  let ?s = "\<lparr>heap_of = hp, history_refs = hrefs, new_refs = [], change_entries_of = []\<rparr>"
  let ?r = "scan_current_refs p c ?s"
  from assms(2,3) have a: "a < length hp"
    by (auto simp: refs_ok_def list_all_iff)
  from scan_current_refs_entry [OF assms(1,3), of ?s p] a obtain a' where
    h: "history_refs ?r k = Some (snapshots_of hrefs k @ [a'])"
    and lo: "length hp \<le> a'" and hi: "a' < length (heap_of ?r)"
    and v: "heap_of ?r ! a' = hp ! a"
    by auto
  have ne: "a' \<noteq> a" using a lo by simp
  have pre: "prefix hp (heap_of ?r)"
    using scan_current_refs_heap [of ?s p c] by simp
  have va: "heap_of ?r ! a = hp ! a"
    using prefix_nth [OF pre a] .
  have "\<And>upd. assign (heap_of ?r) a upd ! a' = hp ! a"
    using ne v by (simp add: assign_def)
  moreover have "\<And>upd. assign (heap_of ?r) a' upd ! a = hp ! a"
    using ne va by (simp add: assign_def)
  ultimately show ?thesis
    using h ne v va by blast
qed

theorem history_entry_is_a_copy_witness:
  "distinct (map fst [(''A'', 0::nat)]) \<and> refs_ok heap_example [(''A'', 0)] \<and>
   history_refs (scan_current_refs [] [(''A'', 0)]
       \<lparr>heap_of = heap_example, history_refs = Map.empty, new_refs = [],
        change_entries_of = []\<rparr>) ''A'' = Some [1] \<and>
   assign (heap_of (scan_current_refs [] [(''A'', 0)]
       \<lparr>heap_of = heap_example, history_refs = Map.empty, new_refs = [],
        change_entries_of = []\<rparr>)) 0 discount ! 1 = fetched_listing ''A'' 900000 ''t2'' \<and>
   assign (heap_of (scan_current_refs [] [(''A'', 0)]
       \<lparr>heap_of = heap_example, history_refs = Map.empty, new_refs = [],
        change_entries_of = []\<rparr>)) 0 discount ! 0 = discount (fetched_listing ''A'' 900000 ''t2'') \<and>
   assign (heap_of (scan_current_refs [] [(''A'', 0)]
       \<lparr>heap_of = heap_example, history_refs = Map.empty, new_refs = [],
        change_entries_of = []\<rparr>)) 1 discount ! 0 = fetched_listing ''A'' 900000 ''t2''"
proof -
  let ?r = "scan_current_refs [] [(''A'', 0)]
       \<lparr>heap_of = heap_example, history_refs = Map.empty, new_refs = [],
        change_entries_of = []\<rparr>"
  have d: "distinct (map fst [(''A'', 0::nat)])" by simp
  have ok: "refs_ok heap_example [(''A'', 0)]"
    by (simp add: refs_ok_def heap_example_def)
  have m: "(''A'', 0) \<in> set [(''A'', 0::nat)]" by simp
  have hr: "history_refs ?r ''A'' = Some [1]"
    by (simp add: dict_copy_def append_snapshot_def snapshots_of_def heap_example_def)
  have h0: "heap_example ! 0 = fetched_listing ''A'' 900000 ''t2''"
    by (simp add: heap_example_def)
  have z: "assign (heap_of ?r) 0 discount ! 0 = discount (fetched_listing ''A'' 900000 ''t2'')"
    by (simp add: dict_copy_def assign_def heap_example_def)
  from history_entry_is_a_copy [OF d ok m, of "[]" Map.empty] obtain a' where
    "history_refs ?r ''A'' = Some (snapshots_of Map.empty ''A'' @ [a'])"
    and c: "\<forall>upd. assign (heap_of ?r) 0 upd ! a' = heap_example ! 0"
      "\<forall>upd. assign (heap_of ?r) a' upd ! 0 = heap_example ! 0"
    by blast
  with hr have "a' = 1"
    by (simp add: snapshots_of_def)
  with c have "assign (heap_of ?r) 0 discount ! 1 = heap_example ! 0"
    "assign (heap_of ?r) 1 discount ! 0 = heap_example ! 0"
    by simp_all
  with d ok hr z show ?thesis
    by (simp only: h0 simp_thms)
qed

end
